theory Spec2Isabelle
  imports Complex_Main "HOL-Library.Sublist"
begin

section \<open>JavaScript values\<close>

text \<open>
  A JavaScript number: a finite value, one of the two infinities, or NaN. The executor
  only compares numbers with zero and takes \<open>Math.max\<close> with zero, which are exact on
  doubles, so the finite values are read as reals (\<open>+0\<close> and \<open>-0\<close>, which \<open>===\<close>
  identifies, are both \<open>Finite 0\<close>).
\<close>

datatype jsnum = Finite real | PosInfinity | NegInfinity | NaN

text \<open>
  The values a caller can pass to \<open>giveInput\<close> and assign to \<open>intervalTime\<close>.
  A string is the list of its characters. \<open>JObject\<close> stands for any object or
  function without a conversion method of its own.
\<close>

datatype jsval =
    JUndefined
  | JNull
  | JBoolean bool
  | JNumber jsnum
  | JString string
  | JSymbol
  | JObject

text \<open>
  The exceptions: the TypeError of \<open>Number\<close> on a symbol, the two failures of the
  program's methods, the RangeError of a call stack that is full, and whatever a
  listener throws.
\<close>

datatype error =
  TypeError | InvalidInputError | NoOutputAvailable | RangeError | ListenerError nat

text \<open>\<open>Math.max(a, b)\<close> on two numbers: NaN if either is NaN.\<close>

fun Math_max :: "jsnum \<Rightarrow> jsnum \<Rightarrow> jsnum" where
  "Math_max NaN _ = NaN"
| "Math_max _ NaN = NaN"
| "Math_max PosInfinity _ = PosInfinity"
| "Math_max _ PosInfinity = PosInfinity"
| "Math_max NegInfinity b = b"
| "Math_max a NegInfinity = a"
| "Math_max (Finite a) (Finite b) = Finite (max a b)"

text \<open>\<open>a < 0\<close> and \<open>a >= 0\<close> on a number; both are false on NaN.\<close>

fun is_negative :: "jsnum \<Rightarrow> bool" where
  "is_negative (Finite a) = (a < 0)"
| "is_negative NegInfinity = True"
| "is_negative PosInfinity = False"
| "is_negative NaN = False"

fun is_nonnegative :: "jsnum \<Rightarrow> bool" where
  "is_nonnegative (Finite a) = (0 \<le> a)"
| "is_nonnegative PosInfinity = True"
| "is_nonnegative NegInfinity = False"
| "is_nonnegative NaN = False"

text \<open>
  \<open>Number(v) === v\<close>. \<open>Number(v)\<close> is always of type number, and \<open>===\<close> is false
  between values of different types, so the test is false for every \<open>v\<close> that is not a
  number; on a number \<open>Number(v)\<close> is \<open>v\<close> itself, and \<open>NaN === NaN\<close> is false.
  \<open>Number\<close> applied to a symbol throws a TypeError.
\<close>

fun Number_is_self :: "jsval \<Rightarrow> error + bool" where
  "Number_is_self (JNumber n) = Inr (n \<noteq> NaN)"
| "Number_is_self JSymbol = Inl TypeError"
| "Number_is_self _ = Inr False"

section \<open>The program, as the executor sees it\<close>

text \<open>
  \<open>src/lib/FishProgram.js\<close> is required by the executor and is not among the sources.
  The executor touches a program only through its constructor, \<open>advance()\<close>,
  \<open>readOutput()\<close>, \<open>giveInput(c)\<close> and the observers \<open>instructionPointer\<close>,
  \<open>inputBuffer\<close>, \<open>stack.snapshot\<close> and \<open>hasTerminated\<close>.
\<close>

datatype direction = UP | DOWN | LEFT | RIGHT

record InstructionPointer =
  ip_x :: int
  ip_y :: int
  ip_direction :: direction

text \<open>
  Modelled from the spec: the state of a FishProgram (FishProgram.js is missing). The
  fields are what section 6 of the spec lets the scheduler observe: the instruction
  pointer, the stack (bottom first), the queue of pending input characters, the output
  produced since the last read, and the termination flag. Everything else of section 3
  (grid, register, string-mode flag, retained error kind) is never touched by the
  executor and is the component \<open>p_core\<close> of an arbitrary type.
\<close>

record 'h FishProgram =
  p_core :: 'h
  p_instructionPointer :: InstructionPointer
  p_stack :: "jsnum list"
  p_inputBuffer :: "string list"
  p_outputBuffer :: string
  p_hasTerminated :: bool

text \<open>
  Modelled from the spec: \<open>new FishProgram(source, initialStack)\<close> (FishProgram.js is
  missing). Section 6: builds the grid from the source text and seeds the stack with
  the initial stack, empty by default; section 8: the pointer starts at (0, 0) moving
  right. How the source text becomes the grid is the parameter \<open>load\<close>.
\<close>

definition new_FishProgram ::
  "(string \<Rightarrow> 'h) \<Rightarrow> string \<Rightarrow> jsnum list option \<Rightarrow> 'h FishProgram" where
  "new_FishProgram load source initialStack =
     \<lparr> p_core = load source,
       p_instructionPointer = \<lparr> ip_x = 0, ip_y = 0, ip_direction = RIGHT \<rparr>,
       p_stack = (case initialStack of None \<Rightarrow> [] | Some st \<Rightarrow> st),
       p_inputBuffer = [],
       p_outputBuffer = [],
       p_hasTerminated = False \<rparr>"

text \<open>
  Modelled from the spec: \<open>FishProgram.advance()\<close> (FishProgram.js is missing).
  Section 6: one instruction cycle, no return value, a no-op once the program has
  terminated. The instruction table is in neither the sources nor, in full, the spec:
  the cycle of a running program is the parameter \<open>cycle\<close>.
\<close>

definition program_advance ::
  "('h FishProgram \<Rightarrow> 'h FishProgram) \<Rightarrow> 'h FishProgram \<Rightarrow> 'h FishProgram" where
  "program_advance cycle p = (if p_hasTerminated p then p else cycle p)"

text \<open>
  Modelled from the spec: \<open>FishProgram.readOutput()\<close> (FishProgram.js is missing).
  Section 6: returns and clears everything appended to the output buffer since the last
  call; fails with NoOutputAvailable if nothing was produced.
\<close>

definition program_readOutput :: "'h FishProgram \<Rightarrow> (error + string) \<times> 'h FishProgram" where
  "program_readOutput p =
     (if p_outputBuffer p = [] then (Inl NoOutputAvailable, p)
      else (Inr (p_outputBuffer p), p\<lparr> p_outputBuffer := [] \<rparr>))"

text \<open>
  Modelled from the spec: \<open>FishProgram.giveInput(c)\<close> (FishProgram.js is missing).
  Section 6: enqueues one character; fails with InvalidInputError if \<open>c\<close> is not exactly
  one character; section 7: the failure does not affect the program's state. The
  executor's own doc comment: throws if \<open>c\<close> is not a string or is not exactly one
  character.
\<close>

definition program_giveInput :: "jsval \<Rightarrow> 'h FishProgram \<Rightarrow> error + 'h FishProgram" where
  "program_giveInput c p =
     (case c of
        JString s \<Rightarrow>
          if length s = 1 then Inr (p\<lparr> p_inputBuffer := p_inputBuffer p @ [s] \<rparr>)
          else Inl InvalidInputError
      | _ \<Rightarrow> Inl InvalidInputError)"

text \<open>
  Modelled from the spec: the program's observers (FishProgram.js is missing).
  Section 6 calls them read-only: each returns its value and the program as it was.
\<close>

definition program_instructionPointer ::
  "'h FishProgram \<Rightarrow> InstructionPointer \<times> 'h FishProgram" where
  "program_instructionPointer p = (p_instructionPointer p, p)"

definition program_inputBuffer :: "'h FishProgram \<Rightarrow> string list \<times> 'h FishProgram" where
  "program_inputBuffer p = (p_inputBuffer p, p)"

definition program_stack_snapshot :: "'h FishProgram \<Rightarrow> jsnum list \<times> 'h FishProgram" where
  "program_stack_snapshot p = (p_stack p, p)"

definition program_hasTerminated :: "'h FishProgram \<Rightarrow> bool \<times> 'h FishProgram" where
  "program_hasTerminated p = (p_hasTerminated p, p)"

section \<open>The executor's state\<close>

text \<open>
  A listener is a function object; \<open>indexOf\<close> compares listeners by identity, so a
  listener is modelled by a number that identifies it. What calling it does is a
  parameter of the operations that call listeners.
\<close>

type_synonym listener = nat

text \<open>
  The calls of the program's \<open>advance()\<close> and \<open>readOutput()\<close> and the calls of
  listeners are recorded, in order, so that "how many times" and "in which order" can
  be stated.
\<close>

datatype event = ProgramAdvance | ProgramReadOutput | ListenerCalled listener

text \<open>
  The fields of a FishExecutor (\<open>u_x\<close> is the field \<open>_x\<close>), followed by the part of the
  host the executor acts on: the timers it has scheduled with \<open>setTimeout\<close> and that
  have neither fired nor been cleared (handle and delay), the next fresh timer handle,
  and the record of calls. \<open>u_timeout = None\<close> is \<open>_timeout === null\<close>.
\<close>

record 'h FishExecutor =
  u_program :: "'h FishProgram"
  u_output :: string
  u_isPaused :: bool
  u_hasStarted :: bool
  u_intervalTime :: jsnum
  u_timeout :: "nat option"
  u_advanceListeners :: "listener list"
  env_timers :: "(nat \<times> jsnum) list"
  env_nextTimer :: nat
  calls :: "event list"

text \<open>
  A call either returns or throws; either way the state it leaves behind is the state
  the caller goes on with.
\<close>

datatype 'h outcome = Returns "'h FishExecutor" | Throws error "'h FishExecutor"

fun state_of :: "'h outcome \<Rightarrow> 'h FishExecutor" where
  "state_of (Returns e) = e"
| "state_of (Throws err e) = e"

fun returns :: "'h outcome \<Rightarrow> bool" where
  "returns (Returns e) = True"
| "returns (Throws err e) = False"

text \<open>Sequencing: a thrown exception skips what follows.\<close>

fun and_then :: "'h outcome \<Rightarrow> ('h FishExecutor \<Rightarrow> 'h outcome) \<Rightarrow> 'h outcome" where
  "and_then (Returns e) k = k e"
| "and_then (Throws err e) k = Throws err e"

section \<open>The executor's operations\<close>

text \<open>The constructor (lines 23 to 86).\<close>

definition new_FishExecutor ::
  "(string \<Rightarrow> 'h) \<Rightarrow> string \<Rightarrow> jsnum list option \<Rightarrow> 'h FishExecutor" where
  "new_FishExecutor load source initialStack =
     \<lparr> u_program = new_FishProgram load source initialStack,
       u_output = [],
       u_isPaused = False,
       u_hasStarted = False,
       u_intervalTime = Finite 100,
       u_timeout = None,
       u_advanceListeners = [],
       env_timers = [],
       env_nextTimer = 0,
       calls = [] \<rparr>"

text \<open>\<open>onAdvance(func)\<close> (lines 93 to 95): \<open>push\<close> appends at the end.\<close>

definition onAdvance :: "listener \<Rightarrow> 'h FishExecutor \<Rightarrow> 'h FishExecutor" where
  "onAdvance func e = e\<lparr> u_advanceListeners := u_advanceListeners e @ [func] \<rparr>"

text \<open>
  \<open>Array.prototype.indexOf\<close>: the first index whose element is strictly equal to the
  one looked for, or -1.
\<close>

fun indexOf_from :: "'a list \<Rightarrow> 'a \<Rightarrow> int \<Rightarrow> int" where
  "indexOf_from [] x k = - 1"
| "indexOf_from (y # ys) x k = (if y = x then k else indexOf_from ys x (k + 1))"

definition indexOf :: "'a list \<Rightarrow> 'a \<Rightarrow> int" where
  "indexOf xs x = indexOf_from xs x 0"

text \<open>\<open>splice(i, 1)\<close> for an index \<open>i >= 0\<close>: removes the element at that index, if any.\<close>

definition splice_one :: "'a list \<Rightarrow> nat \<Rightarrow> 'a list" where
  "splice_one xs i = take i xs @ drop (i + 1) xs"

text \<open>\<open>offAdvance(func)\<close> (lines 102 to 110).\<close>

definition offAdvance :: "listener \<Rightarrow> 'h FishExecutor \<Rightarrow> 'h FishExecutor" where
  "offAdvance func e =
     (let i = indexOf (u_advanceListeners e) func in
      if i \<ge> 0 then e\<lparr> u_advanceListeners := splice_one (u_advanceListeners e) (nat i) \<rparr>
      else e)"

text \<open>
  The getters. Evaluating a getter is a call like any other, so each returns its value
  together with the state it leaves behind.
\<close>

definition instructionPointer :: "'h FishExecutor \<Rightarrow> InstructionPointer \<times> 'h FishExecutor" where
  "instructionPointer e =
     (case program_instructionPointer (u_program e) of (v, p) \<Rightarrow> (v, e\<lparr> u_program := p \<rparr>))"

definition inputBuffer :: "'h FishExecutor \<Rightarrow> string list \<times> 'h FishExecutor" where
  "inputBuffer e =
     (case program_inputBuffer (u_program e) of (v, p) \<Rightarrow> (v, e\<lparr> u_program := p \<rparr>))"

definition stackSnapshot :: "'h FishExecutor \<Rightarrow> jsnum list \<times> 'h FishExecutor" where
  "stackSnapshot e =
     (case program_stack_snapshot (u_program e) of (v, p) \<Rightarrow> (v, e\<lparr> u_program := p \<rparr>))"

definition intervalTime :: "'h FishExecutor \<Rightarrow> jsnum \<times> 'h FishExecutor" where
  "intervalTime e = (u_intervalTime e, e)"

definition hasStarted :: "'h FishExecutor \<Rightarrow> bool \<times> 'h FishExecutor" where
  "hasStarted e = (u_hasStarted e, e)"

definition isPaused :: "'h FishExecutor \<Rightarrow> bool \<times> 'h FishExecutor" where
  "isPaused e = (u_isPaused e, e)"

definition hasTerminated :: "'h FishExecutor \<Rightarrow> bool \<times> 'h FishExecutor" where
  "hasTerminated e =
     (case program_hasTerminated (u_program e) of (v, p) \<Rightarrow> (v, e\<lparr> u_program := p \<rparr>))"

definition program :: "'h FishExecutor \<Rightarrow> 'h FishProgram \<times> 'h FishExecutor" where
  "program e = (u_program e, e)"

text \<open>The getter \<open>output\<close> (\<open>output\<close> is a reserved word here).\<close>

definition get_output :: "'h FishExecutor \<Rightarrow> string \<times> 'h FishExecutor" where
  "get_output e = (u_output e, e)"

text \<open>
  \<open>giveInput(c)\<close> (lines 139 to 141): the program's \<open>giveInput\<close>, whose exception is
  not caught.
\<close>

definition giveInput :: "jsval \<Rightarrow> 'h FishExecutor \<Rightarrow> 'h outcome" where
  "giveInput c e =
     (case program_giveInput c (u_program e) of
        Inr p \<Rightarrow> Returns (e\<lparr> u_program := p \<rparr>)
      | Inl err \<Rightarrow> Throws err e)"

text \<open>\<open>pause()\<close> (lines 192 to 194).\<close>

definition pause :: "'h FishExecutor \<Rightarrow> 'h FishExecutor" where
  "pause e = e\<lparr> u_isPaused := True \<rparr>"

text \<open>
  \<open>_setTimeout(ms)\<close> (lines 214 to 222): the host hands out a fresh handle and keeps
  the timer until it fires or is cleared. What the timer does when it fires is
  \<open>timeout_callback\<close> below.
\<close>

definition u_setTimeout :: "jsnum \<Rightarrow> 'h FishExecutor \<Rightarrow> 'h FishExecutor" where
  "u_setTimeout ms e =
     e\<lparr> u_timeout := Some (env_nextTimer e),
        env_timers := env_timers e @ [(env_nextTimer e, ms)],
        env_nextTimer := Suc (env_nextTimer e) \<rparr>"

text \<open>
  \<open>_clearTimeout()\<close> (lines 229 to 233): \<open>clearTimeout\<close> drops the timer with the given
  handle, and does nothing for \<open>null\<close> or a handle that is no longer scheduled.
\<close>

definition u_clearTimeout :: "'h FishExecutor \<Rightarrow> 'h FishExecutor" where
  "u_clearTimeout e =
     e\<lparr> env_timers := filter (\<lambda>(h, ms). Some h \<noteq> u_timeout e) (env_timers e),
        u_timeout := None \<rparr>"

text \<open>\<open>try { body } catch (err) { handler }\<close>.\<close>

fun try_catch ::
  "'h outcome \<Rightarrow> (error \<Rightarrow> 'h FishExecutor \<Rightarrow> 'h outcome) \<Rightarrow> 'h outcome" where
  "try_catch (Returns e) handler = Returns e"
| "try_catch (Throws err e) handler = handler err e"

text \<open>
  \<open>_advance()\<close> (lines 319 to 330). The program's \<open>advance()\<close> raises nothing (spec,
  section 6); \<open>readOutput()\<close> is called inside the \<open>try\<close>, and the \<open>catch\<close> clause is
  empty.
\<close>

definition u_advance ::
  "('h FishProgram \<Rightarrow> 'h FishProgram) \<Rightarrow> 'h FishExecutor \<Rightarrow> 'h outcome" where
  "u_advance cycle e =
     (let e1 = e\<lparr> u_program := program_advance cycle (u_program e),
                  calls := calls e @ [ProgramAdvance] \<rparr>
      in try_catch
           (case program_readOutput (u_program e1) of
              (Inr out, p) \<Rightarrow>
                Returns (e1\<lparr> u_program := p,
                             u_output := u_output e1 @ out,
                             calls := calls e1 @ [ProgramReadOutput] \<rparr>)
            | (Inl err, p) \<Rightarrow>
                Throws err (e1\<lparr> u_program := p,
                                calls := calls e1 @ [ProgramReadOutput] \<rparr>))
           (\<lambda>err e2. Returns e2))"

text \<open>\<open>_runAtInterval()\<close> (lines 285 to 291).\<close>

definition u_runAtInterval ::
  "('h FishProgram \<Rightarrow> 'h FishProgram) \<Rightarrow> 'h FishExecutor \<Rightarrow> 'h outcome" where
  "u_runAtInterval cycle e =
     and_then (u_advance cycle e) (\<lambda>e1. Returns (u_setTimeout (u_intervalTime e1) e1))"

text \<open>\<open>_FULL_SPEED_ADVANCES\<close> (lines 363 to 365).\<close>

definition FULL_SPEED_ADVANCES :: nat where
  "FULL_SPEED_ADVANCES = 10000"

text \<open>
  The \<open>while\<close> loop of \<open>_runAtFullSpeed()\<close> (lines 303 to 308), with the local variable
  \<open>advances\<close> as an argument.
\<close>

function u_runAtFullSpeed_loop ::
  "('h FishProgram \<Rightarrow> 'h FishProgram) \<Rightarrow> nat \<Rightarrow> 'h FishExecutor \<Rightarrow> 'h outcome" where
  "u_runAtFullSpeed_loop cycle advances e =
     (case hasTerminated e of
        (terminated, e1) \<Rightarrow>
          if \<not> terminated \<and> advances < FULL_SPEED_ADVANCES then
            (case u_advance cycle e1 of
               Returns e2 \<Rightarrow> u_runAtFullSpeed_loop cycle (advances + 1) e2
             | Throws err e2 \<Rightarrow> Throws err e2)
          else Returns e1)"
  by pat_completeness auto
termination
  by (relation "measure (\<lambda>(cycle, advances, e). FULL_SPEED_ADVANCES - advances)") auto

text \<open>\<open>_runAtFullSpeed()\<close> (lines 298 to 312).\<close>

definition u_runAtFullSpeed ::
  "('h FishProgram \<Rightarrow> 'h FishProgram) \<Rightarrow> 'h FishExecutor \<Rightarrow> 'h outcome" where
  "u_runAtFullSpeed cycle e =
     and_then (u_runAtFullSpeed_loop cycle 0 e) (\<lambda>e1. Returns (u_setTimeout (Finite 0) e1))"

text \<open>
  \<open>this._advanceListeners.forEach((func) => func(this))\<close> (line 277).
  \<open>Array.prototype.forEach\<close> reads the length once, then for each index below it that
  the array still has, reads the element at that index at that moment and calls the
  callback with it. The callback calls the listener with the executor as its only
  argument; what the listener does with the executor is \<open>beh\<close>, and an exception it
  throws ends the loop.
\<close>

function forEach_loop ::
  "(listener \<Rightarrow> 'h FishExecutor \<Rightarrow> 'h outcome) \<Rightarrow> nat \<Rightarrow> nat \<Rightarrow> 'h FishExecutor \<Rightarrow> 'h outcome" where
  "forEach_loop beh len k e =
     (if k < len then
        (if k < length (u_advanceListeners e) then
           (case beh (u_advanceListeners e ! k)
                   (e\<lparr> calls := calls e @ [ListenerCalled (u_advanceListeners e ! k)] \<rparr>) of
              Returns e' \<Rightarrow> forEach_loop beh len (k + 1) e'
            | Throws err e' \<Rightarrow> Throws err e')
         else forEach_loop beh len (k + 1) e)
      else Returns e)"
  by pat_completeness auto
termination
  by (relation "measure (\<lambda>(beh, len, k, e). len - k)") auto

definition forEach_advanceListeners ::
  "(listener \<Rightarrow> 'h FishExecutor \<Rightarrow> 'h outcome) \<Rightarrow> 'h FishExecutor \<Rightarrow> 'h outcome" where
  "forEach_advanceListeners beh e = forEach_loop beh (length (u_advanceListeners e)) 0 e"

text \<open>
  \<open>run()\<close> (lines 260 to 278). The \<open>||\<close> of the guard evaluates \<open>isPaused\<close>, then
  \<open>hasTerminated\<close> only if the first is false, then the test of \<open>_timeout\<close>.
\<close>

definition run ::
  "('h FishProgram \<Rightarrow> 'h FishProgram) \<Rightarrow> (listener \<Rightarrow> 'h FishExecutor \<Rightarrow> 'h outcome)
     \<Rightarrow> 'h FishExecutor \<Rightarrow> 'h outcome" where
  "run cycle beh e =
     (let e1 = e\<lparr> u_hasStarted := True \<rparr> in
      case isPaused e1 of
        (paused, e2) \<Rightarrow>
          if paused then Returns e2
          else
            (case hasTerminated e2 of
               (terminated, e3) \<Rightarrow>
                 if terminated then Returns e3
                 else if u_timeout e3 \<noteq> None then Returns e3
                 else
                   and_then
                     (if u_intervalTime e3 = Finite 0 then u_runAtFullSpeed cycle e3
                      else u_runAtInterval cycle e3)
                     (forEach_advanceListeners beh)))"

text \<open>
  The setter of \<open>intervalTime\<close> (lines 162 to 176). In the branch taken when
  \<open>Number(newTime) === newTime\<close>, \<open>newTime\<close> is a number.
\<close>

definition set_intervalTime ::
  "('h FishProgram \<Rightarrow> 'h FishProgram) \<Rightarrow> (listener \<Rightarrow> 'h FishExecutor \<Rightarrow> 'h outcome)
     \<Rightarrow> jsval \<Rightarrow> 'h FishExecutor \<Rightarrow> 'h outcome" where
  "set_intervalTime cycle beh newTime e =
     (case Number_is_self newTime of
        Inl err \<Rightarrow> Throws err e
      | Inr same \<Rightarrow>
          (case (same, newTime) of
             (True, JNumber n) \<Rightarrow>
               (let e1 = e\<lparr> u_intervalTime := Math_max n (Finite 0) \<rparr>;
                    e2 = u_clearTimeout e1
                in if u_hasStarted e2 then run cycle beh e2 else Returns e2)
           | _ \<Rightarrow> Returns e))"

text \<open>\<open>resume()\<close> (lines 199 to 205).\<close>

definition resume ::
  "('h FishProgram \<Rightarrow> 'h FishProgram) \<Rightarrow> (listener \<Rightarrow> 'h FishExecutor \<Rightarrow> 'h outcome)
     \<Rightarrow> 'h FishExecutor \<Rightarrow> 'h outcome" where
  "resume cycle beh e = run cycle beh (e\<lparr> u_isPaused := False \<rparr>)"

text \<open>
  The function handed to \<open>setTimeout\<close> (lines 215 to 221), and the host firing the
  timer with handle \<open>h\<close>: a timer that fires is no longer scheduled.
\<close>

definition timeout_callback ::
  "('h FishProgram \<Rightarrow> 'h FishProgram) \<Rightarrow> (listener \<Rightarrow> 'h FishExecutor \<Rightarrow> 'h outcome)
     \<Rightarrow> 'h FishExecutor \<Rightarrow> 'h outcome" where
  "timeout_callback cycle beh e = run cycle beh (u_clearTimeout e)"

definition timer_fires ::
  "('h FishProgram \<Rightarrow> 'h FishProgram) \<Rightarrow> (listener \<Rightarrow> 'h FishExecutor \<Rightarrow> 'h outcome)
     \<Rightarrow> nat \<Rightarrow> 'h FishExecutor \<Rightarrow> 'h outcome" where
  "timer_fires cycle beh h e =
     (if h \<in> fst ` set (env_timers e) then
        timeout_callback cycle beh
          (e\<lparr> env_timers := filter (\<lambda>(h', ms). h' \<noteq> h) (env_timers e) \<rparr>)
      else Returns e)"

section \<open>Operations as values, and what the record of calls says\<close>

text \<open>
  The operations a user of the executor, or the host's timer, can perform on it: the
  public methods, the assignment to \<open>intervalTime\<close>, the evaluation of a getter, and a
  scheduled timer firing.
\<close>

datatype getter =
    Get_instructionPointer
  | Get_inputBuffer
  | Get_stackSnapshot
  | Get_intervalTime
  | Get_hasStarted
  | Get_isPaused
  | Get_hasTerminated
  | Get_program
  | Get_output

fun after_getter :: "getter \<Rightarrow> 'h FishExecutor \<Rightarrow> 'h FishExecutor" where
  "after_getter Get_instructionPointer e = snd (instructionPointer e)"
| "after_getter Get_inputBuffer e = snd (inputBuffer e)"
| "after_getter Get_stackSnapshot e = snd (stackSnapshot e)"
| "after_getter Get_intervalTime e = snd (intervalTime e)"
| "after_getter Get_hasStarted e = snd (hasStarted e)"
| "after_getter Get_isPaused e = snd (isPaused e)"
| "after_getter Get_hasTerminated e = snd (hasTerminated e)"
| "after_getter Get_program e = snd (program e)"
| "after_getter Get_output e = snd (get_output e)"

datatype operation =
    Call_onAdvance listener
  | Call_offAdvance listener
  | Call_giveInput jsval
  | Assign_intervalTime jsval
  | Call_pause
  | Call_resume
  | Call_run
  | Read getter
  | Timer_fires nat

fun perform ::
  "('h FishProgram \<Rightarrow> 'h FishProgram) \<Rightarrow> (listener \<Rightarrow> 'h FishExecutor \<Rightarrow> 'h outcome)
     \<Rightarrow> operation \<Rightarrow> 'h FishExecutor \<Rightarrow> 'h outcome" where
  "perform cycle beh (Call_onAdvance func) e = Returns (onAdvance func e)"
| "perform cycle beh (Call_offAdvance func) e = Returns (offAdvance func e)"
| "perform cycle beh (Call_giveInput c) e = giveInput c e"
| "perform cycle beh (Assign_intervalTime v) e = set_intervalTime cycle beh v e"
| "perform cycle beh Call_pause e = Returns (pause e)"
| "perform cycle beh Call_resume e = resume cycle beh e"
| "perform cycle beh Call_run e = run cycle beh e"
| "perform cycle beh (Read g) e = Returns (after_getter g e)"
| "perform cycle beh (Timer_fires h) e = timer_fires cycle beh h e"

text \<open>
  Listeners whose code uses the executor it is given, and nothing else of it: a
  listener looks at the executor and performs a sequence of operations on it, given by
  \<open>bodies\<close>. An operation of a listener can call the listeners again, whose operations
  can call them again; \<open>depth\<close> is the room left on the call stack, and a call with no
  room left throws.
\<close>

fun perform_all ::
  "('h FishProgram \<Rightarrow> 'h FishProgram) \<Rightarrow> (listener \<Rightarrow> 'h FishExecutor \<Rightarrow> 'h outcome)
     \<Rightarrow> operation list \<Rightarrow> 'h FishExecutor \<Rightarrow> 'h outcome" where
  "perform_all cycle beh [] e = Returns e"
| "perform_all cycle beh (op # ops) e =
     (case perform cycle beh op e of
        Returns e' \<Rightarrow> perform_all cycle beh ops e'
      | Throws err e' \<Rightarrow> Throws err e')"

primrec scripted ::
  "('h FishProgram \<Rightarrow> 'h FishProgram) \<Rightarrow> (listener \<Rightarrow> 'h FishExecutor \<Rightarrow> operation list)
     \<Rightarrow> nat \<Rightarrow> listener \<Rightarrow> 'h FishExecutor \<Rightarrow> 'h outcome" where
  "scripted cycle bodies 0 = (\<lambda>f e. Throws RangeError e)"
| "scripted cycle bodies (Suc depth) =
     (\<lambda>f e. perform_all cycle (scripted cycle bodies depth) (bodies f e) e)"


text \<open>The number of calls of the program's \<open>advance()\<close> according to a record of calls.\<close>

definition advances_made :: "event list \<Rightarrow> nat" where
  "advances_made evs = count_list evs ProgramAdvance"

text \<open>The executor after \<open>k\<close> calls of \<open>_advance()\<close> in a row.\<close>

primrec after_advances ::
  "('h FishProgram \<Rightarrow> 'h FishProgram) \<Rightarrow> nat \<Rightarrow> 'h FishExecutor \<Rightarrow> 'h FishExecutor" where
  "after_advances cycle 0 e = e"
| "after_advances cycle (Suc k) e = state_of (u_advance cycle (after_advances cycle k e))"

text \<open>Whether \<open>c\<close> is a string of exactly one character.\<close>

fun is_one_character :: "jsval \<Rightarrow> bool" where
  "is_one_character (JString [ch]) = True"
| "is_one_character _ = False"

section \<open>Sample programs and listeners for the examples\<close>

text \<open>
  A cycle for the examples, over programs whose core is the text still to be executed:
  \<open>;\<close> halts, a blank does nothing, and any other character is written to the output.
\<close>

definition sample_cycle :: "string FishProgram \<Rightarrow> string FishProgram" where
  "sample_cycle p =
     (case p_core p of
        [] \<Rightarrow> p
      | c # cs \<Rightarrow>
          if c = CHR '';'' then p\<lparr> p_hasTerminated := True \<rparr>
          else if c = CHR '' '' then p\<lparr> p_core := cs \<rparr>
          else p\<lparr> p_core := cs, p_outputBuffer := p_outputBuffer p @ [c] \<rparr>)"

definition sample_executor :: "string \<Rightarrow> string FishExecutor" where
  "sample_executor source = new_FishExecutor (\<lambda>text. text) source None"

text \<open>Listeners that only look at the executor they are given.\<close>

definition observers :: "listener \<Rightarrow> string FishExecutor \<Rightarrow> string outcome" where
  "observers f e = Returns e"

text \<open>Listener 0 throws; every other listener only looks.\<close>

definition throwing :: "listener \<Rightarrow> string FishExecutor \<Rightarrow> string outcome" where
  "throwing f e = (if f = 0 then Throws (ListenerError 0) e else Returns e)"

text \<open>
  Listener 0 unregisters itself, \<open>(ex) => ex.offAdvance(me)\<close>; every other listener only
  looks.
\<close>

definition unsubscribing :: "listener \<Rightarrow> string FishExecutor \<Rightarrow> string outcome" where
  "unsubscribing f e = (if f = 0 then Returns (offAdvance 0 e) else Returns e)"

text \<open>
  The executor of the program \<open>;\<close> after one call of \<open>run()\<close>: the program has halted
  and the executor has started.
\<close>

definition finished_sample :: "string FishExecutor" where
  "finished_sample = state_of (run sample_cycle observers (sample_executor '';''))"

text \<open>
  The executor of the program \<open>;\<close> on which \<open>run()\<close> was never called, after its
  program was advanced once through the getter \<open>program\<close>
  (\<open>ex.program.advance()\<close>): the program has halted and the executor has not started.
\<close>

definition halted_before_run :: "string FishExecutor" where
  "halted_before_run =
     (sample_executor '';'')\<lparr> u_program :=
        program_advance sample_cycle (u_program (sample_executor '';'')) \<rparr>"

text \<open>The sample executor of the program \<open>ab;\<close> with the listeners 0 and 1, in this order.\<close>

definition two_listeners :: "string FishExecutor" where
  "two_listeners = onAdvance 1 (onAdvance 0 (sample_executor ''ab;''))"

text \<open>That executor after its first call of \<open>run()\<close>: it has written \<open>a\<close> and timer 0 is pending.\<close>

definition after_first_run :: "string FishExecutor" where
  "after_first_run = state_of (run sample_cycle observers two_listeners)"

text \<open>
  Listener 0 keeps the interval time at 5,
  \<open>(ex) => { if (ex.intervalTime !== 5) ex.intervalTime = 5; }\<close>; every other listener
  only looks.
\<close>

definition clamping :: "listener \<Rightarrow> string FishExecutor \<Rightarrow> operation list" where
  "clamping f e =
     (if f = 0 \<and> u_intervalTime e \<noteq> Finite 5 then [Assign_intervalTime (JNumber (Finite 5))]
      else [])"


section \<open>Basic facts about the operations\<close>

declare u_runAtFullSpeed_loop.simps [simp del]
declare forEach_loop.simps [simp del]

text \<open>The definitions that evaluate an operation on a concrete executor.\<close>

lemmas sample_defs =
  sample_executor_def new_FishExecutor_def new_FishProgram_def sample_cycle_def
  observers_def throwing_def unsubscribing_def clamping_def

lemmas executor_defs =
  run_def Let_def isPaused_def hasTerminated_def program_hasTerminated_def hasStarted_def
  u_runAtInterval_def u_runAtFullSpeed_def u_advance_def program_advance_def
  program_readOutput_def u_setTimeout_def u_clearTimeout_def
  forEach_advanceListeners_def forEach_loop.simps u_runAtFullSpeed_loop.simps
  onAdvance_def offAdvance_def indexOf_def splice_one_def pause_def resume_def
  set_intervalTime_def timeout_callback_def timer_fires_def giveInput_def
  program_giveInput_def FULL_SPEED_ADVANCES_def eval_nat_numeral

lemma isPaused_eq: "isPaused e = (u_isPaused e, e)"
  by (simp add: isPaused_def)

lemma hasTerminated_eq: "hasTerminated e = (p_hasTerminated (u_program e), e)"
  by (simp add: hasTerminated_def program_hasTerminated_def)

lemma u_advance_eq:
  "u_advance cycle e =
     Returns (e\<lparr> u_program := snd (program_readOutput (program_advance cycle (u_program e))),
                 u_output := u_output e @
                   (case fst (program_readOutput (program_advance cycle (u_program e))) of
                      Inr out \<Rightarrow> out | Inl err \<Rightarrow> []),
                 calls := calls e @ [ProgramAdvance, ProgramReadOutput] \<rparr>)"
  by (simp add: u_advance_def Let_def split: prod.splits sum.splits)

lemma forEach_loop_rel:
  assumes trans: "\<And>a b c. R a b \<Longrightarrow> R b c \<Longrightarrow> R a c"
    and frame: "\<And>s s'. u_output s' = u_output s \<Longrightarrow> u_intervalTime s' = u_intervalTime s \<Longrightarrow> R s s'"
    and beh: "\<And>f s. R s (state_of (beh f s))"
  shows "R e (state_of (forEach_loop beh len k e))"
  using beh
proof (induction beh len k e rule: forEach_loop.induct)
  case (1 beh' len k e)
  note beh' = "1.prems"
  show ?case
  proof (cases "k < len")
    case False
    then show ?thesis
      by (subst forEach_loop.simps) (simp add: frame)
  next
    case inside: True
    show ?thesis
    proof (cases "k < length (u_advanceListeners e)")
      case False
      with inside "1.IH"(2) beh' show ?thesis
        by (subst forEach_loop.simps) simp
    next
      case present: True
      let ?e1 = "e\<lparr> calls := calls e @ [ListenerCalled (u_advanceListeners e ! k)] \<rparr>"
      have step: "R e (state_of (beh' (u_advanceListeners e ! k) ?e1))"
        by (rule trans [OF frame beh']) simp_all
      show ?thesis
      proof (cases "beh' (u_advanceListeners e ! k) ?e1")
        case (Returns e2)
        with inside present "1.IH"(1) beh'
        have "R e2 (state_of (forEach_loop beh' len (k + 1) e2))"
          by simp
        moreover from step Returns have "R e e2" by simp
        ultimately show ?thesis
          using inside present Returns
          by (subst forEach_loop.simps) (auto intro: trans)
      next
        case (Throws err e2)
        with step inside present show ?thesis
          by (subst forEach_loop.simps) simp
      qed
    qed
  qed
qed


lemma loop_result:
  "\<exists>n e'. u_runAtFullSpeed_loop cycle a e = Returns e'
      \<and> e' = e\<lparr> u_program := u_program e', u_output := u_output e',
                 calls := calls e @ concat (replicate n [ProgramAdvance, ProgramReadOutput]) \<rparr>
      \<and> prefix (u_output e) (u_output e')
      \<and> (a \<le> FULL_SPEED_ADVANCES \<longrightarrow> a + n \<le> FULL_SPEED_ADVANCES)
      \<and> (a + n < FULL_SPEED_ADVANCES \<longrightarrow> p_hasTerminated (u_program e'))
      \<and> (\<not> p_hasTerminated (u_program e) \<and> a < FULL_SPEED_ADVANCES \<longrightarrow> 1 \<le> n)"
proof (induction cycle a e rule: u_runAtFullSpeed_loop.induct)
  case (1 cycle advances e)
  show ?case
  proof (cases "\<not> p_hasTerminated (u_program e) \<and> advances < FULL_SPEED_ADVANCES")
    case False
    then have "u_runAtFullSpeed_loop cycle advances e = Returns e"
      by (subst u_runAtFullSpeed_loop.simps) (auto simp add: hasTerminated_eq)
    with False show ?thesis
      by (intro exI [of _ 0] exI [of _ e]) auto
  next
    case True
    obtain e2 where e2: "u_advance cycle e = Returns e2"
      and e2_eq: "e2 = e\<lparr> u_program := u_program e2, u_output := u_output e2,
                            calls := calls e @ [ProgramAdvance, ProgramReadOutput] \<rparr>"
      and e2_out: "prefix (u_output e) (u_output e2)"
      by (simp add: u_advance_eq)
    from "1.IH" [of "p_hasTerminated (u_program e)" e e2] True e2
    obtain n e' where
      r: "u_runAtFullSpeed_loop cycle (advances + 1) e2 = Returns e'"
      and eq: "e' = e2\<lparr> u_program := u_program e', u_output := u_output e',
                 calls := calls e2 @ concat (replicate n [ProgramAdvance, ProgramReadOutput]) \<rparr>"
      and out: "prefix (u_output e2) (u_output e')"
      and le: "advances + 1 \<le> FULL_SPEED_ADVANCES \<longrightarrow> advances + 1 + n \<le> FULL_SPEED_ADVANCES"
      and tm: "advances + 1 + n < FULL_SPEED_ADVANCES \<longrightarrow> p_hasTerminated (u_program e')"
      by (auto simp add: hasTerminated_eq)
    have run: "u_runAtFullSpeed_loop cycle advances e = Returns e'"
      using True e2 r by (subst u_runAtFullSpeed_loop.simps) (simp add: hasTerminated_eq)
    have calls_e2: "calls e2 = calls e @ [ProgramAdvance, ProgramReadOutput]"
      by (subst e2_eq) simp
    have "e' = e\<lparr> u_program := u_program e', u_output := u_output e',
                 calls := calls e @ concat (replicate (Suc n) [ProgramAdvance, ProgramReadOutput]) \<rparr>"
      by (subst eq, subst e2_eq) (simp add: calls_e2)
    moreover have "prefix (u_output e) (u_output e')"
      using e2_out out by (rule prefix_order.trans)
    ultimately show ?thesis
      using run le tm True
      by (intro exI [of _ "Suc n"] exI [of _ e']) auto
  qed
qed

lemma advanced_fields:
  assumes "e' = e\<lparr> u_program := p, u_output := out, calls := c \<rparr>"
  shows "u_isPaused e' = u_isPaused e" "u_hasStarted e' = u_hasStarted e"
    "u_intervalTime e' = u_intervalTime e" "u_timeout e' = u_timeout e"
    "u_advanceListeners e' = u_advanceListeners e" "env_timers e' = env_timers e"
    "env_nextTimer e' = env_nextTimer e" "calls e' = c" "FishExecutor.more e' = FishExecutor.more e"
  using assms by simp_all

text \<open>What a run that passes the guard does before it calls the listeners.\<close>

lemma run_rejected:
  "u_isPaused e \<or> p_hasTerminated (u_program e) \<or> u_timeout e \<noteq> None
   \<Longrightarrow> run cycle beh e = Returns (e\<lparr> u_hasStarted := True \<rparr>)"
  by (auto simp add: run_def Let_def isPaused_eq hasTerminated_eq)

lemma run_accepted:
  assumes "\<not> u_isPaused e" "\<not> p_hasTerminated (u_program e)" "u_timeout e = None"
  shows "\<exists>n e2. run cycle beh e = forEach_advanceListeners beh e2
      \<and> e2 = e\<lparr> u_hasStarted := True, u_program := u_program e2, u_output := u_output e2,
                 calls := calls e @ concat (replicate n [ProgramAdvance, ProgramReadOutput]),
                 u_timeout := Some (env_nextTimer e),
                 env_timers := env_timers e @ [(env_nextTimer e, u_intervalTime e)],
                 env_nextTimer := Suc (env_nextTimer e) \<rparr>
      \<and> prefix (u_output e) (u_output e2)
      \<and> (u_intervalTime e \<noteq> Finite 0 \<longrightarrow> n = 1)
      \<and> (u_intervalTime e = Finite 0 \<longrightarrow>
            1 \<le> n \<and> n \<le> FULL_SPEED_ADVANCES
            \<and> (n < FULL_SPEED_ADVANCES \<longrightarrow> p_hasTerminated (u_program e2)))"
proof (cases "u_intervalTime e = Finite 0")
  case False
  let ?e1 = "e\<lparr> u_hasStarted := True \<rparr>"
  let ?e2 = "u_setTimeout (u_intervalTime e) (state_of (u_advance cycle ?e1))"
  have "run cycle beh e = forEach_advanceListeners beh ?e2"
    using assms False
    by (simp add: run_def Let_def isPaused_eq hasTerminated_eq u_runAtInterval_def u_advance_eq)
  then show ?thesis
    using False
    by (intro exI [of _ 1] exI [of _ ?e2]) (simp add: u_advance_eq u_setTimeout_def)
next
  case True
  let ?e1 = "e\<lparr> u_hasStarted := True \<rparr>"
  from loop_result [of cycle 0 ?e1] assms
  obtain n e' where l: "u_runAtFullSpeed_loop cycle 0 ?e1 = Returns e'"
    and eq: "e' = ?e1\<lparr> u_program := u_program e', u_output := u_output e',
                 calls := calls ?e1 @ concat (replicate n [ProgramAdvance, ProgramReadOutput]) \<rparr>"
    and out: "prefix (u_output ?e1) (u_output e')"
    and le: "n \<le> FULL_SPEED_ADVANCES"
    and tm: "n < FULL_SPEED_ADVANCES \<longrightarrow> p_hasTerminated (u_program e')"
    and ge: "1 \<le> n"
    by (auto simp add: FULL_SPEED_ADVANCES_def)
  let ?e2 = "u_setTimeout (Finite 0) e'"
  have r: "run cycle beh e = forEach_advanceListeners beh ?e2"
    using assms True l
    by (simp add: run_def Let_def isPaused_eq hasTerminated_eq u_runAtFullSpeed_def)
  have "?e2 = e\<lparr> u_hasStarted := True, u_program := u_program ?e2, u_output := u_output ?e2,
                 calls := calls e @ concat (replicate n [ProgramAdvance, ProgramReadOutput]),
                 u_timeout := Some (env_nextTimer e),
                 env_timers := env_timers e @ [(env_nextTimer e, u_intervalTime e)],
                 env_nextTimer := Suc (env_nextTimer e) \<rparr>"
    by (rule FishExecutor.equality) (simp_all add: u_setTimeout_def True advanced_fields [OF eq])
  moreover have "prefix (u_output e) (u_output ?e2)"
    using out by (simp add: u_setTimeout_def)
  moreover have "p_hasTerminated (u_program ?e2) = p_hasTerminated (u_program e')"
    by (simp add: u_setTimeout_def)
  ultimately show ?thesis
    using r True le tm ge
    by (intro exI [of _ n] exI [of _ ?e2]) simp
qed



lemma advances_made_append: "advances_made (xs @ ys) = advances_made xs + advances_made ys"
  by (simp add: advances_made_def)

lemma advances_made_advances:
  "advances_made (concat (replicate n [ProgramAdvance, ProgramReadOutput])) = n"
  by (induction n) (simp_all add: advances_made_def)


lemma indexOf_from_absent: "x \<notin> set xs \<Longrightarrow> indexOf_from xs x k = - 1"
  by (induction xs arbitrary: k) auto

lemma indexOf_from_last:
  "x \<notin> set xs \<Longrightarrow> 0 \<le> k \<Longrightarrow> indexOf_from (xs @ [x]) x k = k + int (length xs)"
  by (induction xs arbitrary: k) auto

text \<open>
  A relation between the state before and the state after that every step of an
  operation respects is respected by the operation, if the listeners respect it. The
  steps either leave the output and the interval time alone, or append to the output.
\<close>

lemma run_rel:
  assumes trans: "\<And>a b c. R a b \<Longrightarrow> R b c \<Longrightarrow> R a c"
    and frame: "\<And>s s'. u_output s' = u_output s \<Longrightarrow> u_intervalTime s' = u_intervalTime s \<Longrightarrow> R s s'"
    and out: "\<And>s s'. prefix (u_output s) (u_output s') \<Longrightarrow> u_intervalTime s' = u_intervalTime s \<Longrightarrow> R s s'"
    and beh: "\<And>f s. R s (state_of (beh f s))"
  shows "R e (state_of (run cycle beh e))"
proof (cases "u_isPaused e \<or> p_hasTerminated (u_program e) \<or> u_timeout e \<noteq> None")
  case True
  then show ?thesis
    by (simp add: run_rejected frame)
next
  case False
  then have guard: "\<not> u_isPaused e" "\<not> p_hasTerminated (u_program e)" "u_timeout e = None"
    by simp_all
  from run_accepted [OF guard, of cycle beh]
  obtain n e2 where r: "run cycle beh e = forEach_advanceListeners beh e2"
    and eq: "e2 = e\<lparr> u_hasStarted := True, u_program := u_program e2, u_output := u_output e2,
                 calls := calls e @ concat (replicate n [ProgramAdvance, ProgramReadOutput]),
                 u_timeout := Some (env_nextTimer e),
                 env_timers := env_timers e @ [(env_nextTimer e, u_intervalTime e)],
                 env_nextTimer := Suc (env_nextTimer e) \<rparr>"
    and pre: "prefix (u_output e) (u_output e2)"
    by blast
  have "u_intervalTime e2 = u_intervalTime e"
    by (subst eq) simp
  with pre have "R e e2"
    by (rule out)
  moreover have "R e2 (state_of (forEach_advanceListeners beh e2))"
    unfolding forEach_advanceListeners_def
    by (rule forEach_loop_rel [where R = R, OF trans frame beh])
  ultimately have "R e (state_of (forEach_advanceListeners beh e2))"
    by (rule trans)
  with r show ?thesis by simp
qed

lemma perform_rel:
  assumes trans: "\<And>a b c. R a b \<Longrightarrow> R b c \<Longrightarrow> R a c"
    and frame: "\<And>s s'. u_output s' = u_output s \<Longrightarrow> u_intervalTime s' = u_intervalTime s \<Longrightarrow> R s s'"
    and out: "\<And>s s'. prefix (u_output s) (u_output s') \<Longrightarrow> u_intervalTime s' = u_intervalTime s \<Longrightarrow> R s s'"
    and assign: "\<And>s s' n. n \<noteq> NaN \<Longrightarrow> u_output s' = u_output s
                   \<Longrightarrow> u_intervalTime s' = Math_max n (Finite 0) \<Longrightarrow> R s s'"
    and beh: "\<And>f s. R s (state_of (beh f s))"
  shows "R e (state_of (perform cycle beh op e))"
proof -
  note run = run_rel [where R = R, OF trans frame out beh]
  show ?thesis
  proof (cases op)
    case (Call_onAdvance f)
    then show ?thesis by (simp add: onAdvance_def frame)
  next
    case (Call_offAdvance f)
    then show ?thesis by (simp add: offAdvance_def Let_def frame)
  next
    case (Call_giveInput c)
    then show ?thesis
      by (simp add: giveInput_def frame split: sum.splits)
  next
    case (Assign_intervalTime v)
    show ?thesis
    proof (cases "\<exists>n. v = JNumber n \<and> n \<noteq> NaN")
      case False
      then have "state_of (set_intervalTime cycle beh v e) = e"
        by (cases v) (auto simp add: set_intervalTime_def split: sum.splits)
      with Assign_intervalTime show ?thesis by (simp add: frame)
    next
      case True
      then obtain n where v: "v = JNumber n" and n: "n \<noteq> NaN" by blast
      let ?e2 = "u_clearTimeout (e\<lparr> u_intervalTime := Math_max n (Finite 0) \<rparr>)"
      have a: "R e ?e2"
        by (rule assign [OF n]) (simp_all add: u_clearTimeout_def)
      have "R ?e2 (state_of (run cycle beh ?e2))" by (rule run)
      with a have b: "R e (state_of (run cycle beh ?e2))" by (rule trans)
      have "set_intervalTime cycle beh v e
          = (if u_hasStarted ?e2 then run cycle beh ?e2 else Returns ?e2)"
        using v n by (simp add: set_intervalTime_def Let_def)
      with a b show ?thesis
        unfolding Assign_intervalTime perform.simps by simp
    qed
  next
    case Call_pause
    then show ?thesis by (simp add: pause_def frame)
  next
    case Call_resume
    have "R e (e\<lparr> u_isPaused := False \<rparr>)" by (rule frame) simp_all
    moreover have "R (e\<lparr> u_isPaused := False \<rparr>)
        (state_of (run cycle beh (e\<lparr> u_isPaused := False \<rparr>)))" by (rule run)
    ultimately have "R e (state_of (run cycle beh (e\<lparr> u_isPaused := False \<rparr>)))"
      by (rule trans)
    with Call_resume show ?thesis
      by (simp add: resume_def)
  next
    case Call_run
    show ?thesis unfolding Call_run perform.simps by (rule run)
  next
    case (Read g)
    have "after_getter g e = e"
      by (cases g)
        (simp_all add: instructionPointer_def inputBuffer_def stackSnapshot_def
          intervalTime_def hasStarted_def isPaused_def hasTerminated_def program_def
          get_output_def program_instructionPointer_def program_inputBuffer_def
          program_stack_snapshot_def program_hasTerminated_def)
    with Read show ?thesis by (simp add: frame)
  next
    case (Timer_fires h)
    show ?thesis
    proof (cases "h \<in> fst ` set (env_timers e)")
      case False
      with Timer_fires show ?thesis by (simp add: timer_fires_def frame)
    next
      case True
      let ?e1 = "u_clearTimeout (e\<lparr> env_timers := filter (\<lambda>(h', ms). h' \<noteq> h) (env_timers e) \<rparr>)"
      have "R e ?e1" by (rule frame) (simp_all add: u_clearTimeout_def)
      moreover have "R ?e1 (state_of (run cycle beh ?e1))" by (rule run)
      ultimately have "R e (state_of (run cycle beh ?e1))" by (rule trans)
      with True Timer_fires show ?thesis
        by (simp add: timer_fires_def timeout_callback_def)
    qed
  qed
qed

lemma Math_max_zero:
  "n \<noteq> NaN \<Longrightarrow> Math_max n (Finite 0) = (if is_negative n then Finite 0 else n)"
  by (cases n) (simp_all add: max_def)

lemma Math_max_nonnegative: "n \<noteq> NaN \<Longrightarrow> is_nonnegative (Math_max n (Finite 0))"
  by (cases n) simp_all

lemma set_intervalTime_number:
  "n \<noteq> NaN \<Longrightarrow>
   set_intervalTime cycle beh (JNumber n) e =
     (let e1 = u_clearTimeout (e\<lparr> u_intervalTime := (if is_negative n then Finite 0 else n) \<rparr>)
      in if u_hasStarted e then run cycle beh e1 else Returns e1)"
  by (simp add: set_intervalTime_def Let_def Math_max_zero u_clearTimeout_def)

lemma set_intervalTime_other:
  "Number_is_self v \<noteq> Inr True \<Longrightarrow> state_of (set_intervalTime cycle beh v e) = e"
  by (cases v) (auto simp add: set_intervalTime_def)

text \<open>
  Listeners that only use the executor's operations respect every relation that the
  operations respect.
\<close>

lemma perform_all_rel:
  assumes trans: "\<And>a b c. R a b \<Longrightarrow> R b c \<Longrightarrow> R a c"
    and frame: "\<And>s s'. u_output s' = u_output s \<Longrightarrow> u_intervalTime s' = u_intervalTime s \<Longrightarrow> R s s'"
    and out: "\<And>s s'. prefix (u_output s) (u_output s') \<Longrightarrow> u_intervalTime s' = u_intervalTime s \<Longrightarrow> R s s'"
    and assign: "\<And>s s' n. n \<noteq> NaN \<Longrightarrow> u_output s' = u_output s
                   \<Longrightarrow> u_intervalTime s' = Math_max n (Finite 0) \<Longrightarrow> R s s'"
    and beh: "\<And>f s. R s (state_of (beh f s))"
  shows "R e (state_of (perform_all cycle beh ops e))"
proof (induction ops arbitrary: e)
  case Nil
  show ?case by (simp add: frame)
next
  case (Cons op ops)
  have step: "R e (state_of (perform cycle beh op e))"
    by (rule perform_rel [where R = R, OF trans frame out assign beh])
  show ?case
  proof (cases "perform cycle beh op e")
    case (Returns e')
    with step have "R e e'" by simp
    moreover have "R e' (state_of (perform_all cycle beh ops e'))" by (rule Cons.IH)
    ultimately have "R e (state_of (perform_all cycle beh ops e'))" by (rule trans)
    with Returns show ?thesis by simp
  next
    case (Throws err e')
    with step show ?thesis by simp
  qed
qed

lemma scripted_rel:
  assumes trans: "\<And>a b c. R a b \<Longrightarrow> R b c \<Longrightarrow> R a c"
    and frame: "\<And>s s'. u_output s' = u_output s \<Longrightarrow> u_intervalTime s' = u_intervalTime s \<Longrightarrow> R s s'"
    and out: "\<And>s s'. prefix (u_output s) (u_output s') \<Longrightarrow> u_intervalTime s' = u_intervalTime s \<Longrightarrow> R s s'"
    and assign: "\<And>s s' n. n \<noteq> NaN \<Longrightarrow> u_output s' = u_output s
                   \<Longrightarrow> u_intervalTime s' = Math_max n (Finite 0) \<Longrightarrow> R s s'"
  shows "R s (state_of (scripted cycle bodies depth f s))"
proof (induction depth arbitrary: f s)
  case 0
  show ?case by (simp add: frame)
next
  case (Suc depth)
  have "R s (state_of (perform_all cycle (scripted cycle bodies depth) (bodies f s) s))"
    by (rule perform_all_rel [where R = R, OF trans frame out assign Suc.IH])
  then show ?case by simp
qed

lemma scripted_append_only:
  "prefix (u_output s) (u_output (state_of (scripted cycle bodies depth f s)))"
  by (rule scripted_rel [where R = "\<lambda>s s'. prefix (u_output s) (u_output s')"])
    (auto intro: prefix_order.trans)

lemma scripted_keeps_nonnegative:
  "is_nonnegative (u_intervalTime s)
   \<longrightarrow> is_nonnegative (u_intervalTime (state_of (scripted cycle bodies depth f s)))"
  by (rule scripted_rel [where R = "\<lambda>s s'. is_nonnegative (u_intervalTime s)
                                         \<longrightarrow> is_nonnegative (u_intervalTime s')"])
    (simp_all add: Math_max_nonnegative)

text \<open>
  The loop of \<open>_runAtFullSpeed()\<close> stops at the first advance after which the program
  has terminated, or after 10000 advances; and a loop over listeners that all return,
  returns.
\<close>

lemma after_advances_shift:
  "after_advances cycle (Suc k) e = after_advances cycle k (state_of (u_advance cycle e))"
  by (induction k) simp_all

lemma after_advances_frame:
  "u_isPaused (after_advances cycle k e) = u_isPaused e"
  "u_hasStarted (after_advances cycle k e) = u_hasStarted e"
  "u_intervalTime (after_advances cycle k e) = u_intervalTime e"
  "u_timeout (after_advances cycle k e) = u_timeout e"
  "u_advanceListeners (after_advances cycle k e) = u_advanceListeners e"
  "env_timers (after_advances cycle k e) = env_timers e"
  "env_nextTimer (after_advances cycle k e) = env_nextTimer e"
  by (induction k) (simp_all add: u_advance_eq)

lemma after_advances_made:
  "advances_made (calls (after_advances cycle k e)) = advances_made (calls e) + k"
  by (induction k) (simp_all add: u_advance_eq advances_made_def)

lemma returns_advance: "u_advance cycle e = Returns (state_of (u_advance cycle e))"
  by (simp add: u_advance_eq)

lemma loop_exact:
  "\<exists>n. u_runAtFullSpeed_loop cycle a e = Returns (after_advances cycle n e)
      \<and> (a \<le> FULL_SPEED_ADVANCES \<longrightarrow> a + n \<le> FULL_SPEED_ADVANCES)
      \<and> (a + n < FULL_SPEED_ADVANCES \<longrightarrow> p_hasTerminated (u_program (after_advances cycle n e)))
      \<and> (\<forall>j. p_hasTerminated (u_program (after_advances cycle j e)) \<longrightarrow> n \<le> j)
      \<and> (\<not> p_hasTerminated (u_program e) \<and> a < FULL_SPEED_ADVANCES \<longrightarrow> 1 \<le> n)"
proof (induction cycle a e rule: u_runAtFullSpeed_loop.induct)
  case (1 cycle advances e)
  show ?case
  proof (cases "\<not> p_hasTerminated (u_program e) \<and> advances < FULL_SPEED_ADVANCES")
    case False
    then have "u_runAtFullSpeed_loop cycle advances e = Returns e"
      by (subst u_runAtFullSpeed_loop.simps) (auto simp add: hasTerminated_eq)
    with False show ?thesis
      by (intro exI [of _ 0]) auto
  next
    case True
    define e2 where "e2 = state_of (u_advance cycle e)"
    have e2: "u_advance cycle e = Returns e2"
      unfolding e2_def by (rule returns_advance)
    have shift: "after_advances cycle (Suc k) e = after_advances cycle k e2" for k
      unfolding e2_def by (rule after_advances_shift)
    from "1.IH" [of "p_hasTerminated (u_program e)" e e2] True e2
    obtain n where
      r: "u_runAtFullSpeed_loop cycle (advances + 1) e2 = Returns (after_advances cycle n e2)"
      and le: "advances + 1 \<le> FULL_SPEED_ADVANCES \<longrightarrow> advances + 1 + n \<le> FULL_SPEED_ADVANCES"
      and tm: "advances + 1 + n < FULL_SPEED_ADVANCES
                \<longrightarrow> p_hasTerminated (u_program (after_advances cycle n e2))"
      and first: "\<forall>j. p_hasTerminated (u_program (after_advances cycle j e2)) \<longrightarrow> n \<le> j"
      by (auto simp add: hasTerminated_eq)
    have run: "u_runAtFullSpeed_loop cycle advances e = Returns (after_advances cycle (Suc n) e)"
      using True e2 r
      by (subst u_runAtFullSpeed_loop.simps) (simp add: hasTerminated_eq shift del: after_advances.simps)
    have least: "Suc n \<le> j" if t: "p_hasTerminated (u_program (after_advances cycle j e))" for j
    proof (cases j)
      case 0
      with t True show ?thesis by simp
    next
      case (Suc j')
      with t have "p_hasTerminated (u_program (after_advances cycle j' e2))"
        by (simp add: shift del: after_advances.simps)
      with first have "n \<le> j'" by blast
      with Suc show ?thesis by simp
    qed
    have stop: "advances + Suc n < FULL_SPEED_ADVANCES
        \<longrightarrow> p_hasTerminated (u_program (after_advances cycle (Suc n) e))"
      using tm by (simp add: shift del: after_advances.simps)
    from True have "advances < FULL_SPEED_ADVANCES" by simp
    with run le stop least show ?thesis
      by (intro exI [of _ "Suc n"]) (simp del: after_advances.simps)
  qed
qed

lemma forEach_loop_returns:
  assumes "\<forall>f s. returns (beh f s)"
  shows "returns (forEach_loop beh len k e)"
  using assms
proof (induction beh len k e rule: forEach_loop.induct)
  case (1 beh len k e)
  note all = "1.prems"
  show ?case
  proof (cases "k < len")
    case False
    then show ?thesis by (subst forEach_loop.simps) simp
  next
    case inside: True
    show ?thesis
    proof (cases "k < length (u_advanceListeners e)")
      case False
      with inside "1.IH"(2) all show ?thesis
        by (subst forEach_loop.simps) simp
    next
      case present: True
      let ?e1 = "e\<lparr> calls := calls e @ [ListenerCalled (u_advanceListeners e ! k)] \<rparr>"
      from all have "returns (beh (u_advanceListeners e ! k) ?e1)" by blast
      then obtain e2 where e2: "beh (u_advanceListeners e ! k) ?e1 = Returns e2"
        by (cases "beh (u_advanceListeners e ! k) ?e1") simp_all
      from "1.IH"(1) [OF inside present e2 all] inside present e2 show ?thesis
        by (subst forEach_loop.simps) simp
    qed
  qed
qed


lemma after_advances_program:
  "u_program (after_advances cycle k (e\<lparr> u_hasStarted := b \<rparr>))
     = u_program (after_advances cycle k e)"
  by (induction k) (simp_all add: u_advance_eq)

lemma run_accepted_exact:
  assumes "\<not> u_isPaused e" "\<not> p_hasTerminated (u_program e)" "u_timeout e = None"
  shows "\<exists>n. run cycle beh e =
           forEach_advanceListeners beh
             (u_setTimeout (u_intervalTime e)
                (after_advances cycle n (e\<lparr> u_hasStarted := True \<rparr>)))
      \<and> (u_intervalTime e \<noteq> Finite 0 \<longrightarrow> n = 1)
      \<and> (u_intervalTime e = Finite 0 \<longrightarrow>
            1 \<le> n \<and> n \<le> FULL_SPEED_ADVANCES
            \<and> (n < FULL_SPEED_ADVANCES
                 \<longrightarrow> p_hasTerminated (u_program (after_advances cycle n e)))
            \<and> (\<forall>j. p_hasTerminated (u_program (after_advances cycle j e)) \<longrightarrow> n \<le> j))"
proof (cases "u_intervalTime e = Finite 0")
  case False
  let ?e1 = "e\<lparr> u_hasStarted := True \<rparr>"
  have "u_advance cycle ?e1 = Returns (after_advances cycle 1 ?e1)"
    by (simp add: returns_advance [symmetric])
  moreover have "u_intervalTime (after_advances cycle 1 ?e1) = u_intervalTime e"
    by (simp only: after_advances_frame) simp
  ultimately have "run cycle beh e =
      forEach_advanceListeners beh (u_setTimeout (u_intervalTime e) (after_advances cycle 1 ?e1))"
    using assms False
    by (simp add: run_def Let_def isPaused_eq hasTerminated_eq u_runAtInterval_def
        del: after_advances.simps)
  with False show ?thesis
    by (intro exI [of _ 1]) (simp del: after_advances.simps)
next
  case True
  let ?e1 = "e\<lparr> u_hasStarted := True \<rparr>"
  from loop_exact [of cycle 0 ?e1] assms
  obtain n where l: "u_runAtFullSpeed_loop cycle 0 ?e1 = Returns (after_advances cycle n ?e1)"
    and le: "n \<le> FULL_SPEED_ADVANCES"
    and tm: "n < FULL_SPEED_ADVANCES \<longrightarrow> p_hasTerminated (u_program (after_advances cycle n ?e1))"
    and first: "\<forall>j. p_hasTerminated (u_program (after_advances cycle j ?e1)) \<longrightarrow> n \<le> j"
    and ge: "1 \<le> n"
    by (auto simp add: FULL_SPEED_ADVANCES_def)
  have "run cycle beh e =
      forEach_advanceListeners beh (u_setTimeout (u_intervalTime e) (after_advances cycle n ?e1))"
    using assms True l
    by (simp add: run_def Let_def isPaused_eq hasTerminated_eq u_runAtFullSpeed_def)
  with True le tm first ge show ?thesis
    by (intro exI [of _ n]) (simp add: after_advances_program)
qed

section \<open>The claims\<close>

subsection \<open>Running a terminated program\<close>

text \<open>
  Claim C1, as amended. On an executor whose program has terminated, \<open>run()\<close> performs
  no instruction cycle, calls no listener and leaves every field as it was, except that
  it sets \<open>hasStarted\<close>: the flag is set before the guard is tested. So the call changes
  nothing exactly when the executor had already started.
\<close>

theorem C1_run_after_termination:
  assumes "fst (hasTerminated e)"
  shows "run cycle beh e = Returns (e\<lparr> u_hasStarted := True \<rparr>)
         \<and> (u_hasStarted e \<longrightarrow> run cycle beh e = Returns e)"
proof -
  from assms have "p_hasTerminated (u_program e)"
    by (simp add: hasTerminated_eq)
  then have "run cycle beh e = Returns (e\<lparr> u_hasStarted := True \<rparr>)"
    by (simp add: run_rejected)
  moreover have "u_hasStarted e \<Longrightarrow> e\<lparr> u_hasStarted := True \<rparr> = e"
    by simp
  ultimately show ?thesis by simp
qed

text \<open>The theorem at the finished sample executor.\<close>

theorem C1_run_after_termination_witness:
  "fst (hasTerminated finished_sample) \<and> u_hasStarted finished_sample
   \<and> run sample_cycle observers finished_sample = Returns finished_sample"
proof -
  have t: "fst (hasTerminated finished_sample)"
    by (simp add: finished_sample_def sample_defs executor_defs)
  have s: "u_hasStarted finished_sample"
    by (simp add: finished_sample_def sample_defs executor_defs)
  from C1_run_after_termination [OF t, of sample_cycle observers] t s show ?thesis
    by simp
qed

text \<open>
  The claim as first stated, with \<open>hasStarted\<close> among the observables left as they
  were, fails on the executor whose program halted before the first \<open>run()\<close>.
\<close>

theorem C1_counterexample:
  "fst (hasTerminated halted_before_run)
   \<and> \<not> fst (hasStarted halted_before_run)
   \<and> fst (hasStarted (state_of (run sample_cycle observers halted_before_run)))
   \<and> run sample_cycle observers halted_before_run \<noteq> Returns halted_before_run"
  by (simp add: halted_before_run_def sample_defs executor_defs)

subsection \<open>One advance step\<close>

text \<open>
  Claim C2. A step of \<open>_advance()\<close> calls the program's \<open>advance()\<close> once and then its
  \<open>readOutput()\<close> once, and returns. With \<open>r\<close> the result of that read and \<open>p\<close> the
  program it leaves: if the read succeeded the string read is appended to the
  cumulative output, if it failed the error goes no further and the output is as it
  was; nothing else of the executor changes.
\<close>

theorem C2_advance_reads_output_once:
  assumes "program_readOutput (program_advance cycle (u_program e)) = (r, p)"
  shows "u_advance cycle e =
           Returns (e\<lparr> u_program := p,
                       u_output := (case r of Inr out \<Rightarrow> u_output e @ out
                                            | Inl err \<Rightarrow> u_output e),
                       calls := calls e @ [ProgramAdvance, ProgramReadOutput] \<rparr>)"
  using assms by (simp add: u_advance_eq split: sum.splits)

theorem C2_advance_reads_output_once_witness:
  "u_output (state_of (u_advance sample_cycle (sample_executor ''a;''))) = ''a''
   \<and> u_output (state_of (u_advance sample_cycle (sample_executor '' ;''))) = []
   \<and> returns (u_advance sample_cycle (sample_executor '' ;''))
   \<and> calls (state_of (u_advance sample_cycle (sample_executor '' ;'')))
        = [ProgramAdvance, ProgramReadOutput]"
proof -
  let ?p = "new_FishProgram (\<lambda>text. text) ''a;'' None"
  let ?q = "new_FishProgram (\<lambda>text. text) '' ;'' None"
  have a: "program_readOutput (program_advance sample_cycle (u_program (sample_executor ''a;'')))
             = (Inr ''a'', ?p\<lparr> p_core := '';'' \<rparr>)"
    by (simp add: sample_defs program_readOutput_def program_advance_def)
  have b: "program_readOutput (program_advance sample_cycle (u_program (sample_executor '' ;'')))
             = (Inl NoOutputAvailable, ?q\<lparr> p_core := '';'' \<rparr>)"
    by (simp add: sample_defs program_readOutput_def program_advance_def)
  show ?thesis
    using C2_advance_reads_output_once [OF a] C2_advance_reads_output_once [OF b]
    by (simp add: sample_defs)
qed

subsection \<open>How far one call of run goes\<close>

text \<open>
  Claim C3, as amended. Every call of \<open>run()\<close> ends without waiting, and the advances it
  makes itself are bounded. When the guard rejects the call (the execution is paused,
  the program has terminated, or a run timeout is pending) it makes none, sets
  \<open>hasStarted\<close> and returns. When the guard lets the call pass, it makes \<open>n\<close> advances
  in a row: \<open>n = 1\<close> if the interval time is not zero; if it is zero, it advances until
  the program has terminated or 10000 advances are made, whichever comes first, so that
  \<open>1 \<le> n \<le> 10000\<close>, \<open>n\<close> is at most any number of advances after which the program
  has terminated, and the program has terminated if \<open>n < 10000\<close>. It then schedules one
  timeout with the interval time as delay, and only then calls the listeners (what those
  do is theirs). It returns if every listener returns; otherwise it ends with the
  exception of the listener that threw. \<open>run\<close>, the loop of \<open>_runAtFullSpeed\<close> and the
  loop over the listeners are total functions.
\<close>

theorem C3_run_advances_bounded:
  "(fst (isPaused e) \<or> fst (hasTerminated e) \<or> u_timeout e \<noteq> None \<longrightarrow>
      run cycle beh e = Returns (e\<lparr> u_hasStarted := True \<rparr>))
   \<and> (\<not> (fst (isPaused e) \<or> fst (hasTerminated e) \<or> u_timeout e \<noteq> None) \<longrightarrow>
      (\<exists>n e2. run cycle beh e = forEach_advanceListeners beh e2
         \<and> e2 = u_setTimeout (u_intervalTime e)
                  (after_advances cycle n (e\<lparr> u_hasStarted := True \<rparr>))
         \<and> advances_made (calls e2) = advances_made (calls e) + n
         \<and> (u_intervalTime e \<noteq> Finite 0 \<longrightarrow> n = 1)
         \<and> (u_intervalTime e = Finite 0 \<longrightarrow>
               1 \<le> n \<and> n \<le> FULL_SPEED_ADVANCES
               \<and> (n < FULL_SPEED_ADVANCES \<longrightarrow> fst (hasTerminated e2))
               \<and> (\<forall>j. fst (hasTerminated (after_advances cycle j e)) \<longrightarrow> n \<le> j))
         \<and> u_timeout e2 = Some (env_nextTimer e)
         \<and> env_timers e2 = env_timers e @ [(env_nextTimer e, u_intervalTime e)]
         \<and> ((\<forall>f s. returns (beh f s)) \<longrightarrow> returns (run cycle beh e))))"
proof (cases "u_isPaused e \<or> p_hasTerminated (u_program e) \<or> u_timeout e \<noteq> None")
  case True
  then show ?thesis
    by (simp add: run_rejected isPaused_eq hasTerminated_eq)
next
  case False
  then have guard: "\<not> u_isPaused e" "\<not> p_hasTerminated (u_program e)" "u_timeout e = None"
    by simp_all
  from run_accepted_exact [OF guard, of cycle beh]
  obtain n where r: "run cycle beh e =
           forEach_advanceListeners beh
             (u_setTimeout (u_intervalTime e)
                (after_advances cycle n (e\<lparr> u_hasStarted := True \<rparr>)))"
    and one: "u_intervalTime e \<noteq> Finite 0 \<longrightarrow> n = 1"
    and full: "u_intervalTime e = Finite 0 \<longrightarrow>
            1 \<le> n \<and> n \<le> FULL_SPEED_ADVANCES
            \<and> (n < FULL_SPEED_ADVANCES
                 \<longrightarrow> p_hasTerminated (u_program (after_advances cycle n e)))
            \<and> (\<forall>j. p_hasTerminated (u_program (after_advances cycle j e)) \<longrightarrow> n \<le> j)"
    by blast
  define e2 where "e2 = u_setTimeout (u_intervalTime e)
                  (after_advances cycle n (e\<lparr> u_hasStarted := True \<rparr>))"
  have a: "advances_made (calls e2) = advances_made (calls e) + n"
    by (simp add: e2_def u_setTimeout_def after_advances_made)
  have t: "u_timeout e2 = Some (env_nextTimer e)"
    by (simp add: e2_def u_setTimeout_def after_advances_frame)
  have ts: "env_timers e2 = env_timers e @ [(env_nextTimer e, u_intervalTime e)]"
    by (simp add: e2_def u_setTimeout_def after_advances_frame)
  have p: "u_program e2 = u_program (after_advances cycle n e)"
    by (simp add: e2_def u_setTimeout_def after_advances_program)
  have ret: "(\<forall>f s. returns (beh f s)) \<longrightarrow> returns (run cycle beh e)"
    by (simp add: r forEach_advanceListeners_def forEach_loop_returns)
  from False have g: "\<not> (fst (isPaused e) \<or> fst (hasTerminated e) \<or> u_timeout e \<noteq> None)"
    by (simp add: isPaused_eq hasTerminated_eq)
  have "\<exists>n e2. run cycle beh e = forEach_advanceListeners beh e2
         \<and> e2 = u_setTimeout (u_intervalTime e)
                  (after_advances cycle n (e\<lparr> u_hasStarted := True \<rparr>))
         \<and> advances_made (calls e2) = advances_made (calls e) + n
         \<and> (u_intervalTime e \<noteq> Finite 0 \<longrightarrow> n = 1)
         \<and> (u_intervalTime e = Finite 0 \<longrightarrow>
               1 \<le> n \<and> n \<le> FULL_SPEED_ADVANCES
               \<and> (n < FULL_SPEED_ADVANCES \<longrightarrow> fst (hasTerminated e2))
               \<and> (\<forall>j. fst (hasTerminated (after_advances cycle j e)) \<longrightarrow> n \<le> j))
         \<and> u_timeout e2 = Some (env_nextTimer e)
         \<and> env_timers e2 = env_timers e @ [(env_nextTimer e, u_intervalTime e)]
         \<and> ((\<forall>f s. returns (beh f s)) \<longrightarrow> returns (run cycle beh e))"
    using r a one full t ts p ret
    by (intro exI [of _ n] exI [of _ e2]) (simp add: hasTerminated_eq e2_def [symmetric])
  with g show ?thesis
    by blast
qed


text \<open>
  The theorem on a paused executor, at an interval, and at full speed, where the program
  \<open>ab;\<close> halts with its third advance.
\<close>

theorem C3_run_advances_bounded_witness:
  "run sample_cycle observers (pause (sample_executor ''ab;''))
     = Returns ((pause (sample_executor ''ab;''))\<lparr> u_hasStarted := True \<rparr>)
   \<and> (\<exists>e2. run sample_cycle observers (sample_executor ''ab;'')
               = forEach_advanceListeners observers e2
            \<and> advances_made (calls e2) = 1 \<and> u_timeout e2 = Some 0)
   \<and> returns (run sample_cycle observers (sample_executor ''ab;''))
   \<and> (\<exists>e2. run sample_cycle observers ((sample_executor ''ab;'')\<lparr> u_intervalTime := Finite 0 \<rparr>)
               = forEach_advanceListeners observers e2
            \<and> advances_made (calls e2) = 3 \<and> fst (hasTerminated e2) \<and> u_timeout e2 = Some 0)"
proof -
  let ?paused = "pause (sample_executor ''ab;'')"
  let ?timed = "sample_executor ''ab;''"
  let ?fast = "(sample_executor ''ab;'')\<lparr> u_intervalTime := Finite 0 \<rparr>"
  have look: "\<forall>f s. returns (observers f s)"
    by (simp add: observers_def)
  have "fst (isPaused ?paused)"
    by (simp add: sample_defs executor_defs)
  with C3_run_advances_bounded [of ?paused sample_cycle observers]
  have a: "run sample_cycle observers ?paused = Returns (?paused\<lparr> u_hasStarted := True \<rparr>)"
    by blast
  have "\<not> (fst (isPaused ?timed) \<or> fst (hasTerminated ?timed) \<or> u_timeout ?timed \<noteq> None)"
    by (simp add: sample_defs executor_defs)
  with C3_run_advances_bounded [of ?timed sample_cycle observers] look
  obtain n e2 where "run sample_cycle observers ?timed = forEach_advanceListeners observers e2"
    and "advances_made (calls e2) = advances_made (calls ?timed) + n"
    and "u_intervalTime ?timed \<noteq> Finite 0 \<longrightarrow> n = 1"
    and "u_timeout e2 = Some (env_nextTimer ?timed)"
    and b2: "returns (run sample_cycle observers ?timed)"
    by blast
  then have b: "\<exists>e2. run sample_cycle observers ?timed = forEach_advanceListeners observers e2
            \<and> advances_made (calls e2) = 1 \<and> u_timeout e2 = Some 0"
    by (intro exI [of _ e2]) (simp add: sample_defs advances_made_def)
  have "\<not> (fst (isPaused ?fast) \<or> fst (hasTerminated ?fast) \<or> u_timeout ?fast \<noteq> None)"
    by (simp add: sample_defs executor_defs)
  with C3_run_advances_bounded [of ?fast sample_cycle observers]
  obtain m e3 where r: "run sample_cycle observers ?fast = forEach_advanceListeners observers e3"
    and e3: "e3 = u_setTimeout (u_intervalTime ?fast)
                   (after_advances sample_cycle m (?fast\<lparr> u_hasStarted := True \<rparr>))"
    and made: "advances_made (calls e3) = advances_made (calls ?fast) + m"
    and full: "u_intervalTime ?fast = Finite 0 \<longrightarrow> 1 \<le> m \<and> m \<le> FULL_SPEED_ADVANCES
               \<and> (m < FULL_SPEED_ADVANCES \<longrightarrow> fst (hasTerminated e3))
               \<and> (\<forall>j. fst (hasTerminated (after_advances sample_cycle j ?fast)) \<longrightarrow> m \<le> j)"
    and tm: "u_timeout e3 = Some (env_nextTimer ?fast)"
    by blast
  have halted: "fst (hasTerminated (after_advances sample_cycle 3 ?fast))"
    by (simp add: sample_defs executor_defs)
  from full have "1 \<le> m" and first: "\<forall>j. fst (hasTerminated (after_advances sample_cycle j ?fast)) \<longrightarrow> m \<le> j"
    and stop: "m < FULL_SPEED_ADVANCES \<longrightarrow> fst (hasTerminated e3)"
    by simp_all
  from first halted have "m \<le> 3" by blast
  with \<open>1 \<le> m\<close> have "m = 1 \<or> m = 2 \<or> m = 3" by arith
  moreover have "\<not> fst (hasTerminated (u_setTimeout (u_intervalTime ?fast)
                   (after_advances sample_cycle 1 (?fast\<lparr> u_hasStarted := True \<rparr>))))"
    and "\<not> fst (hasTerminated (u_setTimeout (u_intervalTime ?fast)
                   (after_advances sample_cycle 2 (?fast\<lparr> u_hasStarted := True \<rparr>))))"
    by (simp_all add: sample_defs executor_defs)
  ultimately have m: "m = 3"
    using stop e3 by (auto simp add: FULL_SPEED_ADVANCES_def simp del: after_advances.simps)
  with stop have "fst (hasTerminated e3)"
    by (simp add: FULL_SPEED_ADVANCES_def)
  with r made tm m
  have c: "\<exists>e2. run sample_cycle observers ?fast = forEach_advanceListeners observers e2
            \<and> advances_made (calls e2) = 3 \<and> fst (hasTerminated e2) \<and> u_timeout e2 = Some 0"
    by (intro exI [of _ e3]) (simp add: sample_defs advances_made_def)
  from a b b2 c show ?thesis by blast
qed

text \<open>
  The claim as first stated promises exactly one advance whenever the interval time is
  greater than zero, and that every call returns. A paused executor with interval time
  100 makes no advance, and a call that passes the guard and whose first listener throws
  does not return.
\<close>

theorem C3_counterexample:
  "is_nonnegative (u_intervalTime (pause (sample_executor ''ab;'')))
   \<and> u_intervalTime (pause (sample_executor ''ab;'')) \<noteq> Finite 0
   \<and> advances_made (calls (state_of (run sample_cycle observers (pause (sample_executor ''ab;'')))))
       \<noteq> advances_made (calls (pause (sample_executor ''ab;''))) + 1
   \<and> advances_made (calls (state_of (run sample_cycle observers (pause (sample_executor ''ab;'')))))
       = advances_made (calls (pause (sample_executor ''ab;'')))
   \<and> \<not> (fst (isPaused two_listeners) \<or> fst (hasTerminated two_listeners)
        \<or> u_timeout two_listeners \<noteq> None)
   \<and> \<not> returns (run sample_cycle throwing two_listeners)"
  by (simp add: two_listeners_def sample_defs executor_defs advances_made_def)

text \<open>
  What the listeners do is theirs: with the listener that assigns the interval time, one
  call of \<open>run()\<close> from outside ends with two advances made, the second by the \<open>run()\<close>
  that the setter calls.
\<close>

lemma run_with_clamping_listener:
  "advances_made (calls (state_of
     (run sample_cycle (scripted sample_cycle clamping 3) two_listeners))) = 2"
  by (simp add: two_listeners_def sample_defs executor_defs advances_made_def)

subsection \<open>Calling the listeners\<close>




subsection \<open>Giving input\<close>

text \<open>
  Claim C5. \<open>giveInput(c)\<close> throws exactly when \<open>c\<close> is not a string of exactly one
  character. When \<open>c\<close> is such a string, the call returns and \<open>c\<close> is appended to the
  program's queue of pending input, the only thing that changes; when it is not, the
  call throws and the executor, its program included, is as it was.
\<close>

theorem C5_giveInput:
  "(is_one_character c \<longrightarrow>
      (\<exists>ch. c = JString [ch]
         \<and> giveInput c e =
             Returns (e\<lparr> u_program := (u_program e)\<lparr> p_inputBuffer :=
                                         p_inputBuffer (u_program e) @ [[ch]] \<rparr> \<rparr>)))
   \<and> (\<not> is_one_character c \<longrightarrow> giveInput c e = Throws InvalidInputError e)"
proof (cases "is_one_character c")
  case True
  then obtain ch where "c = JString [ch]"
    by (cases c rule: is_one_character.cases) simp_all
  then show ?thesis
    by (simp add: giveInput_def program_giveInput_def)
next
  case False
  have "giveInput c e = Throws InvalidInputError e"
  proof (cases c)
    case (JString s)
    with False have "length s \<noteq> 1"
      by (cases s rule: list.exhaust) (auto simp add: length_Suc_conv)
    with JString show ?thesis
      by (simp add: giveInput_def program_giveInput_def)
  qed (simp_all add: giveInput_def program_giveInput_def)
  with False show ?thesis by simp
qed

text \<open>The theorem for a one-character string, two other strings and a number.\<close>

theorem C5_giveInput_witness:
  "giveInput (JString ''x'') (sample_executor ''ab;'')
     = Returns ((sample_executor ''ab;'')\<lparr> u_program :=
         (u_program (sample_executor ''ab;''))\<lparr> p_inputBuffer := [''x''] \<rparr> \<rparr>)
   \<and> giveInput (JString ''xy'') (sample_executor ''ab;'')
       = Throws InvalidInputError (sample_executor ''ab;'')
   \<and> giveInput (JString '''') (sample_executor ''ab;'')
       = Throws InvalidInputError (sample_executor ''ab;'')
   \<and> giveInput (JNumber (Finite 7)) (sample_executor ''ab;'')
       = Throws InvalidInputError (sample_executor ''ab;'')"
  using C5_giveInput [of "JString ''x''" "sample_executor ''ab;''"]
    C5_giveInput [of "JString ''xy''" "sample_executor ''ab;''"]
    C5_giveInput [of "JString ''''" "sample_executor ''ab;''"]
    C5_giveInput [of "JNumber (Finite 7)" "sample_executor ''ab;''"]
  by (simp add: sample_defs)

subsection \<open>The getters\<close>

text \<open>
  Claim C6. Evaluating any of the getters \<open>instructionPointer\<close>, \<open>inputBuffer\<close>,
  \<open>stackSnapshot\<close>, \<open>hasStarted\<close>, \<open>isPaused\<close>, \<open>intervalTime\<close>, \<open>output\<close> and
  \<open>hasTerminated\<close>, in any state of the executor, leaves the executor and its program
  exactly as they were.
\<close>

theorem C6_getters_read_only:
  "snd (instructionPointer e) = e
   \<and> snd (inputBuffer e) = e
   \<and> snd (stackSnapshot e) = e
   \<and> snd (hasStarted e) = e
   \<and> snd (isPaused e) = e
   \<and> snd (intervalTime e) = e
   \<and> snd (get_output e) = e
   \<and> snd (hasTerminated e) = e"
  by (simp add: instructionPointer_def inputBuffer_def stackSnapshot_def
       intervalTime_def hasStarted_def isPaused_def hasTerminated_def
       get_output_def program_instructionPointer_def program_inputBuffer_def
       program_stack_snapshot_def program_hasTerminated_def)

subsection \<open>Construction\<close>

text \<open>
  Claim C7. For every source text and every optional initial stack, the constructor
  builds the program from exactly those two arguments, and the new executor has the
  empty string as cumulative output, is neither paused nor started, has interval
  time 100, no pending run timeout and no advance listener.
\<close>

theorem C7_constructor_initial_state:
  "u_program (new_FishExecutor load source initialStack)
     = new_FishProgram load source initialStack
   \<and> u_output (new_FishExecutor load source initialStack) = []
   \<and> u_isPaused (new_FishExecutor load source initialStack) = False
   \<and> u_hasStarted (new_FishExecutor load source initialStack) = False
   \<and> u_intervalTime (new_FishExecutor load source initialStack) = Finite 100
   \<and> u_timeout (new_FishExecutor load source initialStack) = None
   \<and> u_advanceListeners (new_FishExecutor load source initialStack) = []"
  by (simp add: new_FishExecutor_def)

subsection \<open>The interval time\<close>

text \<open>
  Claim C8. The interval time is 100 after construction. Assigning a value \<open>v\<close> for
  which \<open>Number(v) === v\<close> does not hold (a value that is not a number, or NaN; for a
  symbol the test itself throws) leaves the executor as it was. Assigning any other
  number stores 0 if the number is negative and the number itself otherwise, clears the
  run timeout and, if the executor has started, calls \<open>run()\<close>; the stored value is
  still there afterwards unless a listener called by that \<open>run()\<close> assigns the interval
  time again. Hence an interval time that is not negative stays so under every
  operation, listeners being held to the same.
\<close>

theorem C8_intervalTime_nonnegative:
  "u_intervalTime (new_FishExecutor load source initialStack) = Finite 100
   \<and> (Number_is_self v \<noteq> Inr True \<longrightarrow> state_of (set_intervalTime cycle beh v e) = e)
   \<and> (n \<noteq> NaN \<longrightarrow>
        set_intervalTime cycle beh (JNumber n) e =
          (let e1 = u_clearTimeout
                      (e\<lparr> u_intervalTime := (if is_negative n then Finite 0 else n) \<rparr>)
           in if u_hasStarted e then run cycle beh e1 else Returns e1))
   \<and> (n \<noteq> NaN \<longrightarrow> (\<forall>f s. u_intervalTime (state_of (beh f s)) = u_intervalTime s) \<longrightarrow>
        u_intervalTime (state_of (set_intervalTime cycle beh (JNumber n) e))
          = (if is_negative n then Finite 0 else n))
   \<and> (is_nonnegative (u_intervalTime e) \<longrightarrow>
        (\<forall>f s. is_nonnegative (u_intervalTime s)
                 \<longrightarrow> is_nonnegative (u_intervalTime (state_of (beh f s)))) \<longrightarrow>
        is_nonnegative (u_intervalTime (state_of (perform cycle beh op e))))"
proof -
  have init: "u_intervalTime (new_FishExecutor load source initialStack) = Finite 100"
    by (simp add: new_FishExecutor_def)
  have stored: "u_intervalTime (state_of (set_intervalTime cycle beh (JNumber n) e))
          = (if is_negative n then Finite 0 else n)"
    if n: "n \<noteq> NaN" and same: "\<forall>f s. u_intervalTime (state_of (beh f s)) = u_intervalTime s"
  proof -
    define v where "v = (if is_negative n then Finite 0 else n)"
    let ?e1 = "u_clearTimeout (e\<lparr> u_intervalTime := v \<rparr>)"
    have "u_intervalTime (state_of (run cycle beh ?e1)) = u_intervalTime ?e1"
      by (rule run_rel [where R = "\<lambda>s s'. u_intervalTime s' = u_intervalTime s"])
        (simp_all add: same)
    moreover have "u_intervalTime ?e1 = v"
      by (simp add: u_clearTimeout_def)
    moreover have "set_intervalTime cycle beh (JNumber n) e =
        (if u_hasStarted e then run cycle beh ?e1 else Returns ?e1)"
      using n by (simp add: set_intervalTime_number Let_def v_def)
    ultimately have "u_intervalTime (state_of (set_intervalTime cycle beh (JNumber n) e)) = v"
      by simp
    then show ?thesis
      by (simp only: v_def)
  qed
  have inv: "is_nonnegative (u_intervalTime (state_of (perform cycle beh op e)))"
    if e: "is_nonnegative (u_intervalTime e)"
      and keep: "\<forall>f s. is_nonnegative (u_intervalTime s)
                 \<longrightarrow> is_nonnegative (u_intervalTime (state_of (beh f s)))"
  proof -
    have "is_nonnegative (u_intervalTime e)
          \<longrightarrow> is_nonnegative (u_intervalTime (state_of (perform cycle beh op e)))"
      by (rule perform_rel [where R = "\<lambda>s s'. is_nonnegative (u_intervalTime s)
                                         \<longrightarrow> is_nonnegative (u_intervalTime s')"])
        (simp_all add: keep Math_max_nonnegative)
    with e show ?thesis by simp
  qed
  from init stored inv show ?thesis
    by (simp add: set_intervalTime_number set_intervalTime_other)
qed

text \<open>
  The theorem on the executor after its first run: a string, NaN, a negative number,
  a positive number and minus infinity with listeners that only look, and a positive
  number with a listener that assigns the interval time itself.
\<close>

theorem C8_intervalTime_nonnegative_witness:
  "state_of (set_intervalTime sample_cycle observers (JString ''fast'') after_first_run)
     = after_first_run
   \<and> state_of (set_intervalTime sample_cycle observers (JNumber NaN) after_first_run)
     = after_first_run
   \<and> u_intervalTime (state_of
         (set_intervalTime sample_cycle observers (JNumber (Finite (- 5))) after_first_run))
       = Finite 0
   \<and> u_intervalTime (state_of
         (set_intervalTime sample_cycle observers (JNumber (Finite 250)) after_first_run))
       = Finite 250
   \<and> is_nonnegative (u_intervalTime (state_of
         (perform sample_cycle observers (Assign_intervalTime (JNumber NegInfinity))
            after_first_run)))
   \<and> is_nonnegative (u_intervalTime (state_of
         (perform sample_cycle (scripted sample_cycle clamping 3)
            (Assign_intervalTime (JNumber (Finite 250))) after_first_run)))"
proof -
  have same: "\<forall>f s. u_intervalTime (state_of (observers f s)) = u_intervalTime s"
    by (simp add: observers_def)
  have keep: "\<forall>f s. is_nonnegative (u_intervalTime s)
                 \<longrightarrow> is_nonnegative (u_intervalTime (state_of (observers f s)))"
    by (simp add: observers_def)
  have start: "is_nonnegative (u_intervalTime after_first_run)"
    by (simp add: after_first_run_def two_listeners_def sample_defs executor_defs)
  have n1: "Finite (- 5) \<noteq> NaN" and n2: "Finite 250 \<noteq> NaN"
    and v1: "Number_is_self (JString ''fast'') \<noteq> Inr True"
    and v2: "Number_is_self (JNumber NaN) \<noteq> Inr True"
    by simp_all
  note first = C8_intervalTime_nonnegative
         [where v = "JString ''fast''" and n = "Finite (- 5)" and e = after_first_run
            and cycle = sample_cycle and beh = observers
            and op = "Assign_intervalTime (JNumber NegInfinity)"
            and load = "\<lambda>text. text" and source = "''ab;''" and initialStack = None]
  note second = C8_intervalTime_nonnegative
         [where v = "JNumber NaN" and n = "Finite 250" and e = after_first_run
            and cycle = sample_cycle and beh = observers and op = Call_run
            and load = "\<lambda>text. text" and source = "''ab;''" and initialStack = None]
  from first v1 have a: "state_of (set_intervalTime sample_cycle observers (JString ''fast'')
      after_first_run) = after_first_run"
    by blast
  from second v2 have b: "state_of (set_intervalTime sample_cycle observers (JNumber NaN)
      after_first_run) = after_first_run"
    by blast
  from first n1 same have "u_intervalTime (state_of
         (set_intervalTime sample_cycle observers (JNumber (Finite (- 5))) after_first_run))
       = (if is_negative (Finite (- 5)) then Finite 0 else Finite (- 5))"
    by blast
  then have c: "u_intervalTime (state_of
         (set_intervalTime sample_cycle observers (JNumber (Finite (- 5))) after_first_run))
       = Finite 0"
    by simp
  from second n2 same have "u_intervalTime (state_of
         (set_intervalTime sample_cycle observers (JNumber (Finite 250)) after_first_run))
       = (if is_negative (Finite 250) then Finite 0 else Finite 250)"
    by blast
  then have d: "u_intervalTime (state_of
         (set_intervalTime sample_cycle observers (JNumber (Finite 250)) after_first_run))
       = Finite 250"
    by simp
  from first start keep have e: "is_nonnegative (u_intervalTime (state_of
         (perform sample_cycle observers (Assign_intervalTime (JNumber NegInfinity))
            after_first_run)))"
    by blast
  have scripts: "\<forall>f s. is_nonnegative (u_intervalTime s)
      \<longrightarrow> is_nonnegative (u_intervalTime (state_of (scripted sample_cycle clamping 3 f s)))"
    by (simp add: scripted_keeps_nonnegative)
  from C8_intervalTime_nonnegative
         [where v = "JNumber NaN" and n = "Finite 250" and e = after_first_run
            and cycle = sample_cycle and beh = "scripted sample_cycle clamping 3"
            and op = "Assign_intervalTime (JNumber (Finite 250))"
            and load = "\<lambda>text. text" and source = "''ab;''" and initialStack = None]
       start scripts
  have f: "is_nonnegative (u_intervalTime (state_of
         (perform sample_cycle (scripted sample_cycle clamping 3)
            (Assign_intervalTime (JNumber (Finite 250))) after_first_run)))"
    by blast
  from a b c d e f show ?thesis by blast
qed

text \<open>
  A listener can assign the interval time again: on the started executor, with the
  listener that keeps the interval time at 5, the assignment of 250 stores 250 and the
  \<open>run()\<close> it calls ends with 5 stored.
\<close>

lemma assignment_overridden_by_listener:
  "u_hasStarted after_first_run
   \<and> u_intervalTime (state_of
         (set_intervalTime sample_cycle (scripted sample_cycle clamping 3)
            (JNumber (Finite 250)) after_first_run)) = Finite 5"
  by (simp add: after_first_run_def two_listeners_def sample_defs executor_defs)


subsection \<open>Registering and unregistering a listener\<close>

text \<open>
  Claim C9. For a function that is not in the listener list, \<open>onAdvance\<close> followed by
  \<open>offAdvance\<close> of that function gives back the executor as it was, listener list
  included, and \<open>offAdvance\<close> alone changes nothing.
\<close>

theorem C9_onAdvance_offAdvance:
  assumes "func \<notin> set (u_advanceListeners e)"
  shows "offAdvance func (onAdvance func e) = e \<and> offAdvance func e = e"
proof -
  from assms have "indexOf (u_advanceListeners e) func = - 1"
    by (simp add: indexOf_def indexOf_from_absent)
  then have off: "offAdvance func e = e"
    by (simp add: offAdvance_def)
  from assms have "indexOf (u_advanceListeners e @ [func]) func = int (length (u_advanceListeners e))"
    by (simp add: indexOf_def indexOf_from_last)
  then have "offAdvance func (onAdvance func e) = e"
    by (simp add: offAdvance_def onAdvance_def splice_one_def)
  with off show ?thesis by simp
qed

text \<open>The theorem for a third function and the executor with the listeners 0 and 1.\<close>

theorem C9_onAdvance_offAdvance_witness:
  "(2::nat) \<notin> set (u_advanceListeners two_listeners)
   \<and> offAdvance 2 (onAdvance 2 two_listeners) = two_listeners
   \<and> offAdvance 2 two_listeners = two_listeners"
proof -
  have h: "(2::nat) \<notin> set (u_advanceListeners two_listeners)"
    by (simp add: two_listeners_def sample_defs executor_defs)
  from C9_onAdvance_offAdvance [OF h] h show ?thesis by simp
qed

subsection \<open>The cumulative output\<close>

text \<open>
  Claim C10. Under every operation (the public methods, the assignment to
  \<open>intervalTime\<close>, the getters, and a timer firing) the cumulative output before the
  operation is a prefix of the cumulative output after it, the listeners that the
  operation calls being held to the same.
\<close>

theorem C10_output_append_only:
  assumes "\<forall>f s. prefix (u_output s) (u_output (state_of (beh f s)))"
  shows "prefix (u_output e) (u_output (state_of (perform cycle beh op e)))"
proof (rule perform_rel [where R = "\<lambda>s s'. prefix (u_output s) (u_output s')"])
  show "prefix (u_output s) (u_output (state_of (beh f s)))" for f s
    using assms by simp
qed (auto intro: prefix_order.trans)


text \<open>
  The theorem for the pending timer of the executor after its first run, and for a call
  of \<open>run()\<close> whose listeners assign the interval time.
\<close>

theorem C10_output_append_only_witness:
  "u_output after_first_run = ''a''
   \<and> u_output (state_of (perform sample_cycle observers (Timer_fires 0) after_first_run)) = ''ab''
   \<and> prefix (u_output after_first_run)
        (u_output (state_of (perform sample_cycle observers (Timer_fires 0) after_first_run)))
   \<and> u_output two_listeners = []
   \<and> u_output (state_of
         (perform sample_cycle (scripted sample_cycle clamping 3) Call_run two_listeners)) = ''ab''
   \<and> prefix (u_output two_listeners)
        (u_output (state_of
           (perform sample_cycle (scripted sample_cycle clamping 3) Call_run two_listeners)))"
proof -
  have only: "\<forall>f s. prefix (u_output s) (u_output (state_of (observers f s)))"
    by (simp add: observers_def)
  have scripts: "\<forall>f s. prefix (u_output s)
      (u_output (state_of (scripted sample_cycle clamping 3 f s)))"
    by (simp add: scripted_append_only)
  have "u_output after_first_run = ''a''"
    by (simp add: after_first_run_def two_listeners_def sample_defs executor_defs)
  moreover
  have "u_output (state_of (perform sample_cycle observers (Timer_fires 0) after_first_run)) = ''ab''"
    by (simp add: after_first_run_def two_listeners_def sample_defs executor_defs)
  moreover
  have "u_output two_listeners = []"
    by (simp add: two_listeners_def sample_defs executor_defs)
  moreover
  have "u_output (state_of
         (perform sample_cycle (scripted sample_cycle clamping 3) Call_run two_listeners)) = ''ab''"
    by (simp add: two_listeners_def sample_defs executor_defs)
  ultimately show ?thesis
    using C10_output_append_only [OF only, of after_first_run sample_cycle "Timer_fires 0"]
      C10_output_append_only [OF scripts, of two_listeners sample_cycle Call_run]
    by simp
qed

end
